theory Spec2Isabelle
  imports Main "HOL-Library.Multiset"
begin

section \<open>Delta-K trinary substitution cipher\<close>

text \<open>
  A shallow embedding of the two programs of the repository: the keyword-permutation encoder
  (\<^verbatim>\<open>cipher-encoder.cpp\<close>) and the Delta-K encoder/decoder with its header
  (\<^verbatim>\<open>Delta_K.hpp\<close> and its implementation file).

  A \<^verbatim>\<open>std::string\<close> is a list of bytes (\<^typ>\<open>string\<close>); each of the three glyphs is
  a three-byte UTF-8 sequence.  Everything the C++ code can do besides returning a value is a
  value of type \<open>error\<close>: the exception thrown by \<^verbatim>\<open>std::string::substr\<close>, an array
  index outside a table, and a remainder by zero.
\<close>

subsection \<open>Errors and bounded iteration\<close>

datatype error =
    OutOfRange          \<comment> \<open>\<^verbatim>\<open>std::out_of_range\<close> thrown by \<^verbatim>\<open>substr\<close>\<close>
  | IndexOutOfBounds    \<comment> \<open>an array or string subscript outside the object\<close>
  | DivisionByZero      \<comment> \<open>\<^verbatim>\<open>%\<close> with a zero divisor\<close>

text \<open>
  \<open>for_each xs body s\<close> is a \<^verbatim>\<open>for\<close> loop whose control variable takes the values
  \<open>xs\<close> in turn and whose body updates the local state \<open>s\<close>; the first failure ends it.
\<close>

fun for_each :: "'i list \<Rightarrow> ('i \<Rightarrow> 's \<Rightarrow> error + 's) \<Rightarrow> 's \<Rightarrow> error + 's" where
  "for_each [] body s = Inr s"
| "for_each (x # xs) body s =
     (case body x s of Inl e \<Rightarrow> Inl e | Inr s' \<Rightarrow> for_each xs body s')"

subsection \<open>The C library on characters\<close>

text \<open>
  \<^verbatim>\<open>std::isalpha\<close> and \<^verbatim>\<open>std::toupper\<close> in the "C" locale: the letters are the 52
  ASCII letters.  \<open>char_val\<close> is the value of a \<^verbatim>\<open>char\<close> in integer arithmetic, with
  \<^verbatim>\<open>char\<close> a signed 8-bit type.
\<close>

definition isalpha :: "char \<Rightarrow> bool" where
  "isalpha c = (let n = (of_char c :: nat) in (65 \<le> n \<and> n \<le> 90) \<or> (97 \<le> n \<and> n \<le> 122))"

definition toupper :: "char \<Rightarrow> char" where
  "toupper c = (let n = (of_char c :: nat) in if 97 \<le> n \<and> n \<le> 122 then char_of (n - 32) else c)"

definition char_val :: "char \<Rightarrow> int" where
  "char_val c = (let n = (of_char c :: int) in if n < 128 then n else n - 256)"

subsection \<open>Constants of \<^verbatim>\<open>Delta_K.hpp\<close>\<close>

definition ALPHABET_LENGTH :: nat where
  "ALPHABET_LENGTH = 26"

definition BASE :: nat where
  "BASE = 3"

definition GLYPHS :: "string list" where
  "GLYPHS = [[CHR 0xE2, CHR 0x96, CHR 0xB2],
             [CHR 0xE2, CHR 0x96, CHR 0xBC],
             [CHR 0xE2, CHR 0x97, CHR 0x86]]"

definition TRIT_ALPHABET :: "int list list" where
  "TRIT_ALPHABET =
    [[0, 0, 1], [0, 0, 2], [0, 1, 0], [0, 1, 1], [0, 1, 2],
     [0, 2, 0], [0, 2, 1], [0, 2, 2], [1, 0, 0], [1, 0, 1],
     [1, 0, 2], [1, 1, 0], [1, 1, 1], [1, 1, 2], [1, 2, 0],
     [1, 2, 1], [1, 2, 2], [2, 0, 0], [2, 0, 1], [2, 0, 2],
     [2, 1, 0], [2, 1, 1], [2, 1, 2], [2, 2, 0], [2, 2, 1],
     [2, 2, 2]]"

text \<open>
  Modelled from the spec: \<^verbatim>\<open>GLYPH_SIZE\<close> is used by \<^verbatim>\<open>decrypt\<close> but declared in
  none of the source files.  The spec's decoder reads windows of 3 characters and advances by
  9 = 3 runs of 3 characters after a decoded letter, which is \<^verbatim>\<open>GLYPH_SIZE * 3\<close>; it is
  also the number of bytes of each entry of \<^verbatim>\<open>GLYPHS\<close>.
\<close>

definition GLYPH_SIZE :: nat where
  "GLYPH_SIZE = 3"

text \<open>Subscripts into the two tables; a subscript outside the array is an error.\<close>

definition trit_at :: "int \<Rightarrow> nat \<Rightarrow> error + int" where
  "trit_at row j =
     (if 0 \<le> row \<and> row < int ALPHABET_LENGTH \<and> j < BASE
      then Inr (TRIT_ALPHABET ! nat row ! j) else Inl IndexOutOfBounds)"

definition glyph_at :: "int \<Rightarrow> error + string" where
  "glyph_at v = (if 0 \<le> v \<and> v < int BASE then Inr (GLYPHS ! nat v) else Inl IndexOutOfBounds)"

subsection \<open>Helpers shared by both programs\<close>

definition abcPosition :: "char \<Rightarrow> int" where
  "abcPosition abc = (let abcUpper = toupper abc; asciiVal = char_val abcUpper - 65 in asciiVal)"

text \<open>
  \<^verbatim>\<open>abcSearch\<close>: the linear scan over the rows of the table, from row \<open>i\<close> on, returning at
  the first row whose three trits are \<open>a\<close>, \<open>b\<close>, \<open>c\<close>, and \<open>-1\<close> when there is none.
\<close>

function abcSearch_from :: "nat \<Rightarrow> int \<Rightarrow> int \<Rightarrow> int \<Rightarrow> int" where
  "abcSearch_from i a b c =
     (if i < ALPHABET_LENGTH then
        (if TRIT_ALPHABET ! i ! 0 = a \<and> TRIT_ALPHABET ! i ! 1 = b \<and> TRIT_ALPHABET ! i ! 2 = c
         then int i
         else abcSearch_from (i + 1) a b c)
      else - 1)"
  by pat_completeness auto
termination
  by (relation "measure (\<lambda>(i, a, b, c). ALPHABET_LENGTH - i)") auto

definition abcSearch :: "int \<Rightarrow> int \<Rightarrow> int \<Rightarrow> int" where
  "abcSearch a b c = abcSearch_from 0 a b c"

declare abcSearch_from.simps [simp del]

subsection \<open>The Delta-K encoders\<close>

text \<open>
  \<^verbatim>\<open>encrypt(const std::string&)\<close>, the unkeyed encoder.  \<open>encrypt_letter\<close> is its inner loop
  over \<open>j\<close>, \<open>encrypt_step\<close> the body of its loop over the plaintext.
\<close>

definition encrypt_letter :: "int \<Rightarrow> string \<Rightarrow> error + string" where
  "encrypt_letter abcValue ciphertext =
     for_each [0..<BASE] (\<lambda>j ciphertext.
        case trit_at abcValue j of
          Inl e \<Rightarrow> Inl e
        | Inr t \<Rightarrow>
            (case glyph_at t of Inl e \<Rightarrow> Inl e | Inr g \<Rightarrow> Inr (ciphertext @ g))) ciphertext"

definition encrypt_step :: "char \<Rightarrow> string \<Rightarrow> error + string" where
  "encrypt_step currentChar ciphertext =
     (if isalpha currentChar then
        (let abcValue = abcPosition currentChar in encrypt_letter abcValue ciphertext)
      else if currentChar = CHR '' '' then Inr (ciphertext @ ''/'')
      else Inr (ciphertext @ [currentChar]))"

definition encrypt :: "string \<Rightarrow> error + string" where
  "encrypt plaintext = for_each plaintext encrypt_step []"

text \<open>
  \<^verbatim>\<open>encrypt(const std::string&, const std::string&)\<close>, the keyed (additive) encoder.  The
  loop state is the ciphertext and \<^verbatim>\<open>keyIndex\<close>.  \<^verbatim>\<open>keyIndex\<close> is a \<^verbatim>\<open>size_t\<close> that counts
  letters of the plaintext, so it stays below the length of a string and never wraps.  The
  two trits are in {0,1,2} when they are read at all, so \<^verbatim>\<open>%\<close> is \<open>mod\<close>.
\<close>

definition encrypt_keyed_letter :: "int \<Rightarrow> int \<Rightarrow> string \<Rightarrow> error + string" where
  "encrypt_keyed_letter abcVal keyAbcVal ciphertext =
     for_each [0..<BASE] (\<lambda>j ciphertext.
        case trit_at abcVal j of
          Inl e \<Rightarrow> Inl e
        | Inr p \<Rightarrow>
            (case trit_at keyAbcVal j of
               Inl e \<Rightarrow> Inl e
             | Inr k \<Rightarrow>
                 (let keyedValue = p + k; keyedValue = keyedValue mod 3 in
                  (case glyph_at keyedValue of
                     Inl e \<Rightarrow> Inl e
                   | Inr g \<Rightarrow> Inr (ciphertext @ g))))) ciphertext"

definition encrypt_keyed_step :: "string \<Rightarrow> char \<Rightarrow> string \<times> nat \<Rightarrow> error + string \<times> nat" where
  "encrypt_keyed_step key currentChar st =
     (case st of (ciphertext, keyIndex) \<Rightarrow>
        if isalpha currentChar then
          (if length key = 0 then Inl DivisionByZero
           else
             (let currentKeyChar = key ! (keyIndex mod length key);
                  keyAbcVal = abcPosition currentKeyChar;
                  abcVal = abcPosition currentChar
              in case encrypt_keyed_letter abcVal keyAbcVal ciphertext of
                   Inl e \<Rightarrow> Inl e
                 | Inr ciphertext' \<Rightarrow> Inr (ciphertext', keyIndex + 1)))
        else if currentChar = CHR '' '' then Inr (ciphertext @ ''/'', keyIndex)
        else Inr (ciphertext @ [currentChar], keyIndex))"

definition encrypt_keyed :: "string \<Rightarrow> string \<Rightarrow> error + string" where
  "encrypt_keyed plaintext key =
     (case for_each plaintext (encrypt_keyed_step key) ([], 0) of
        Inl e \<Rightarrow> Inl e
      | Inr (ciphertext, keyIndex) \<Rightarrow> Inr ciphertext)"

text \<open>\<^verbatim>\<open>keyValidation\<close> of Delta-K: non-empty and only letters.\<close>

fun all_alpha_from :: "string \<Rightarrow> bool" where
  "all_alpha_from [] = True"
| "all_alpha_from (c # cs) = (if \<not> isalpha c then False else all_alpha_from cs)"

definition keyValidation :: "string \<Rightarrow> bool" where
  "keyValidation key = (if key = [] then False else all_alpha_from key)"

subsection \<open>The Delta-K decoder\<close>

text \<open>
  \<^verbatim>\<open>std::string::substr(pos, n)\<close> throws when \<open>pos\<close> is greater than the size, and returns
  the at most \<open>n\<close> characters from \<open>pos\<close> on otherwise (the empty string when \<open>pos\<close> is the
  size).
\<close>

definition substr :: "string \<Rightarrow> nat \<Rightarrow> nat \<Rightarrow> error + string" where
  "substr s pos n = (if length s < pos then Inl OutOfRange else Inr (take n (drop pos s)))"

definition isGlyph :: "string \<Rightarrow> bool" where
  "isGlyph c = (if c = GLYPHS ! 0 \<or> c = GLYPHS ! 1 \<or> c = GLYPHS ! 2 then True else False)"

definition glyphVal :: "string \<Rightarrow> int" where
  "glyphVal c =
     (if c = GLYPHS ! 0 then 0
      else if c = GLYPHS ! 1 then 1
      else if c = GLYPHS ! 2 then 2
      else - 1)"

text \<open>
  The loop of \<^verbatim>\<open>decrypt\<close>, from position \<open>i\<close> with the plaintext built so far.  A decoded
  letter adds \<^verbatim>\<open>GLYPH_SIZE * 3 - 1\<close> to \<open>i\<close> before the loop's own increment.  The cast of
  \<^verbatim>\<open>'A' + abcSearch(...)\<close> to \<^verbatim>\<open>char\<close> keeps the low 8 bits.
\<close>

function decrypt_loop :: "string \<Rightarrow> nat \<Rightarrow> string \<Rightarrow> error + string" where
  "decrypt_loop ciphertext i plaintext =
     (if i < length ciphertext then
        (case substr ciphertext i GLYPH_SIZE of
           Inl e \<Rightarrow> Inl e
         | Inr current1 \<Rightarrow>
             if \<not> isGlyph current1 then
               decrypt_loop ciphertext (i + 1) (plaintext @ [ciphertext ! i])
             else
               (case substr ciphertext (i + GLYPH_SIZE) GLYPH_SIZE of
                  Inl e \<Rightarrow> Inl e
                | Inr current2 \<Rightarrow>
                    (case substr ciphertext (i + GLYPH_SIZE * 2) GLYPH_SIZE of
                       Inl e \<Rightarrow> Inl e
                     | Inr current3 \<Rightarrow>
                         (let glyphSeq1 = glyphVal current1;
                              glyphSeq2 = glyphVal current2;
                              glyphSeq3 = glyphVal current3;
                              decryptedChar = (char_of (65 + abcSearch glyphSeq1 glyphSeq2 glyphSeq3) :: char)
                          in decrypt_loop ciphertext (i + (GLYPH_SIZE * 3 - 1) + 1)
                               (plaintext @ [decryptedChar])))))
      else Inr plaintext)"
  by pat_completeness auto
termination
  by (relation "measure (\<lambda>(ciphertext, i, plaintext). length ciphertext - i)")
     (auto simp: GLYPH_SIZE_def)

declare decrypt_loop.simps [simp del]

definition decrypt :: "string \<Rightarrow> error + string" where
  "decrypt ciphertext = decrypt_loop ciphertext 0 []"

subsection \<open>The keyword-permutation encoder (\<^verbatim>\<open>cipher-encoder.cpp\<close>)\<close>

text \<open>
  The three glyphs as byte strings, and \<^verbatim>\<open>CIPHER_ALPHABET\<close> as the source writes it: 26
  string literals of three glyphs each.
\<close>

definition tri_up :: string where
  "tri_up = [CHR 0xE2, CHR 0x96, CHR 0xB2]"

definition tri_down :: string where
  "tri_down = [CHR 0xE2, CHR 0x96, CHR 0xBC]"

definition diamond :: string where
  "diamond = [CHR 0xE2, CHR 0x97, CHR 0x86]"

definition CIPHER_ALPHABET :: "string list" where
  "CIPHER_ALPHABET =
    [tri_up @ tri_up @ tri_down, tri_up @ tri_up @ diamond, tri_up @ tri_down @ tri_up,
     tri_up @ tri_down @ tri_down, tri_up @ tri_down @ diamond, tri_up @ diamond @ tri_up,
     tri_up @ diamond @ tri_down, tri_up @ diamond @ diamond,
     tri_down @ tri_up @ tri_up, tri_down @ tri_up @ tri_down, tri_down @ tri_up @ diamond,
     tri_down @ tri_down @ tri_up, tri_down @ tri_down @ tri_down, tri_down @ tri_down @ diamond,
     tri_down @ diamond @ tri_up, tri_down @ diamond @ tri_down, tri_down @ diamond @ diamond,
     diamond @ tri_up @ tri_up, diamond @ tri_up @ tri_down, diamond @ tri_up @ diamond,
     diamond @ tri_down @ tri_up, diamond @ tri_down @ tri_down, diamond @ tri_down @ diamond,
     diamond @ diamond @ tri_up, diamond @ diamond @ tri_down, diamond @ diamond @ diamond]"

text \<open>
  \<^verbatim>\<open>encrypt(plaintext, alphabet)\<close>: a letter is replaced by the entry of the 26-entry array
  at its position, every other character is appended as it is.
\<close>

definition encrypt_perm_step :: "string list \<Rightarrow> char \<Rightarrow> string \<Rightarrow> error + string" where
  "encrypt_perm_step alphabet c ciphertext =
     (if isalpha c then
        (let pos = abcPosition c in
         if 0 \<le> pos \<and> pos < int ALPHABET_LENGTH then Inr (ciphertext @ alphabet ! nat pos)
         else Inl IndexOutOfBounds)
      else Inr (ciphertext @ [c]))"

definition encrypt_perm :: "string \<Rightarrow> string list \<Rightarrow> error + string" where
  "encrypt_perm plaintext alphabet = for_each plaintext (encrypt_perm_step alphabet) []"

text \<open>
  \<^verbatim>\<open>keyValidation\<close> of \<^verbatim>\<open>cipher-encoder.cpp\<close>.  \<open>upper_scan\<close> is its loop: \<open>None\<close> is the
  early \<^verbatim>\<open>return false\<close>, \<open>Some upperKey\<close> the string built when the loop ends.  The size
  of the \<^verbatim>\<open>std::set\<close> built from \<open>upperKey\<close> is the number of its distinct characters.
\<close>

fun upper_scan :: "string \<Rightarrow> string \<Rightarrow> string option" where
  "upper_scan [] upperKey = Some upperKey"
| "upper_scan (c # cs) upperKey =
     (if \<not> isalpha c then None else upper_scan cs (upperKey @ [toupper c]))"

definition keyValidation_perm :: "string \<Rightarrow> bool" where
  "keyValidation_perm key =
     (case upper_scan key [] of
        None \<Rightarrow> False
      | Some upperKey \<Rightarrow> card (set upperKey) = length upperKey)"

text \<open>
  \<^verbatim>\<open>alphabetWithKey\<close>.  \<open>erase_first c alphabet\<close> is the inner loop over \<open>j\<close>: it erases
  the first character equal to \<open>c\<close> and breaks, and changes nothing when there is none.
\<close>

fun erase_first :: "char \<Rightarrow> string \<Rightarrow> string" where
  "erase_first c [] = []"
| "erase_first c (a # alphabet) = (if a = c then alphabet else a # erase_first c alphabet)"

definition alphabetWithKey :: "string \<Rightarrow> string" where
  "alphabetWithKey key =
     (let alphabet = ''ABCDEFGHIJKLMNOPQRSTUVWXYZ'';
          keyedAlphabet = fold (\<lambda>c keyedAlphabet. keyedAlphabet @ [toupper c]) key [];
          alphabet = fold erase_first keyedAlphabet alphabet
      in keyedAlphabet @ alphabet)"

text \<open>
  \<^verbatim>\<open>keyedCipherAlphabet\<close>, with the array \<open>output\<close> passed in and returned.  Reading a
  \<^verbatim>\<open>std::string\<close> at its size gives the terminating zero character; a subscript beyond
  it, or a subscript of \<open>output\<close> outside [0,25], is an error.
\<close>

definition string_at :: "string \<Rightarrow> nat \<Rightarrow> error + char" where
  "string_at s i =
     (if i < length s then Inr (s ! i)
      else if i = length s then Inr (CHR 0x00)
      else Inl IndexOutOfBounds)"

definition keyedCipherAlphabet :: "string \<Rightarrow> string list \<Rightarrow> error + string list" where
  "keyedCipherAlphabet keyedAlphabet output =
     for_each [0..<ALPHABET_LENGTH] (\<lambda>i output.
        case string_at keyedAlphabet i of
          Inl e \<Rightarrow> Inl e
        | Inr ch \<Rightarrow>
            (let index = char_val ch - 65 in
             if 0 \<le> index \<and> index < int ALPHABET_LENGTH
             then Inr (output[nat index := CIPHER_ALPHABET ! i])
             else Inl IndexOutOfBounds)) output"

text \<open>
  The keyed branch of \<^verbatim>\<open>main\<close>: a fresh array of 26 empty strings is filled by
  \<^verbatim>\<open>keyedCipherAlphabet(alphabetWithKey(key), keyedCipher)\<close> and handed to \<^verbatim>\<open>encrypt\<close>.
\<close>

definition encrypt_with_key :: "string \<Rightarrow> string \<Rightarrow> error + string" where
  "encrypt_with_key plaintext key =
     (case keyedCipherAlphabet (alphabetWithKey key) (replicate ALPHABET_LENGTH []) of
        Inl e \<Rightarrow> Inl e
      | Inr keyedCipher \<Rightarrow> encrypt_perm plaintext keyedCipher)"

section \<open>The specification's vocabulary\<close>

text \<open>
  The glyph run of a letter index: the three trits of its row, each translated to its glyph.
\<close>

definition glyph_run :: "nat \<Rightarrow> string" where
  "glyph_run i = concat (map (\<lambda>t. GLYPHS ! nat t) (TRIT_ALPHABET ! i))"

text \<open>
  What the specification says the static encoder writes for one character, and what the
  decoder gives back for it: the letter in upper case, and \<open>/\<close> for a space.
\<close>

definition spec_static_char :: "char \<Rightarrow> string" where
  "spec_static_char c =
     (if isalpha c then glyph_run (nat (abcPosition c))
      else if c = CHR '' '' then ''/''
      else [c])"

definition spec_decoded_char :: "char \<Rightarrow> char" where
  "spec_decoded_char c = (if c = CHR '' '' then CHR ''/'' else toupper c)"

text \<open>\<^verbatim>\<open>decrypt(encrypt(s))\<close>: the decoder run on the output of the static encoder.\<close>

definition decrypt_encrypt :: "string \<Rightarrow> error + string" where
  "decrypt_encrypt s = (case encrypt s of Inl e \<Rightarrow> Inl e | Inr ct \<Rightarrow> decrypt ct)"

text \<open>
  The plain alphabet, the position of a letter in a keyed ordering, and what the specification
  says the keyed-permutation encoder writes for one character given the ordering: the static
  glyph run of the position of the letter in the ordering.
\<close>

definition plain_alphabet :: string where
  "plain_alphabet = ''ABCDEFGHIJKLMNOPQRSTUVWXYZ''"

fun position_in :: "'a list \<Rightarrow> 'a \<Rightarrow> nat" where
  "position_in [] x = 0"
| "position_in (y # ys) x = (if x = y then 0 else Suc (position_in ys x))"

definition spec_perm_char :: "string \<Rightarrow> char \<Rightarrow> string" where
  "spec_perm_char keyedAlphabet c =
     (if isalpha c then CIPHER_ALPHABET ! position_in keyedAlphabet (toupper c) else [c])"

text \<open>
  The letter index of the specification: a letter, in either case, is canonicalised to its
  0-based position in the alphabet, \<open>A\<close> and \<open>a\<close> to 0, \<open>Z\<close> and \<open>z\<close> to 25.  It is read off
  the two alphabets and uses none of the program's functions.
\<close>

definition small_alphabet :: string where
  "small_alphabet = ''abcdefghijklmnopqrstuvwxyz''"

definition spec_letter_index :: "char \<Rightarrow> nat" where
  "spec_letter_index c =
     (if c \<in> set plain_alphabet then position_in plain_alphabet c
      else position_in small_alphabet c)"

text \<open>
  The keyed-additive encoder in the specification's words.  \<open>spec_additive_run p k\<close> is the
  glyph run of the triple whose \<open>j\<close>-th trit is \<open>(plainTrit[j] + keyTrit[j]) mod 3\<close>, for the
  letter indices \<open>p\<close> and \<open>k\<close>.  \<open>letters_before plaintext i\<close> is the number of alphabetic
  characters before position \<open>i\<close>.  \<open>spec_additive_char key k c\<close> is what is written for the
  character \<open>c\<close> when \<open>k\<close> alphabetic characters came before it: the rows of the plaintext
  letter and of the key letter \<open>key[k mod len(key)]\<close> are those of their letter indices.
\<close>

definition spec_additive_run :: "nat \<Rightarrow> nat \<Rightarrow> string" where
  "spec_additive_run p k =
     concat (map (\<lambda>j. GLYPHS ! nat ((TRIT_ALPHABET ! p ! j + TRIT_ALPHABET ! k ! j) mod 3)) [0..<3])"

definition letters_before :: "string \<Rightarrow> nat \<Rightarrow> nat" where
  "letters_before plaintext i = length (filter isalpha (take i plaintext))"

definition spec_additive_char :: "string \<Rightarrow> nat \<Rightarrow> char \<Rightarrow> string" where
  "spec_additive_char key k c =
     (if isalpha c then
        spec_additive_run (spec_letter_index c) (spec_letter_index (key ! (k mod length key)))
      else if c = CHR '' '' then ''/''
      else [c])"

text \<open>
  What one round of the keyed loop appends, with the two rows as the program computes them,
  by \<open>abcPosition\<close>.
\<close>

definition keyed_piece :: "string \<Rightarrow> nat \<Rightarrow> char \<Rightarrow> string" where
  "keyed_piece key k c =
     (if isalpha c then
        spec_additive_run (nat (abcPosition c)) (nat (abcPosition (key ! (k mod length key))))
      else if c = CHR '' '' then ''/''
      else [c])"

section \<open>Properties\<close>

subsection \<open>Characters, iteration and the tables\<close>

lemma char_val_nat:
  "char_val c = (if (of_char c :: nat) < 128 then int (of_char c) else int (of_char c) - 256)"
proof -
  have "(of_char c :: int) = int (of_char c)" by (simp add: of_nat_of_char)
  then show ?thesis unfolding char_val_def Let_def by simp
qed

lemma of_char_toupper:
  "(of_char (toupper c) :: nat) =
     (if 97 \<le> (of_char c :: nat) \<and> (of_char c :: nat) \<le> 122 then of_char c - 32 else of_char c)"
proof -
  have "((of_char c :: nat) - 32) mod 256 = of_char c - 32"
    by (rule mod_less) (simp add: less_imp_diff_less)
  then show ?thesis by (simp add: toupper_def Let_def)
qed

lemma abcPosition_nat:
  "isalpha c \<Longrightarrow> abcPosition c = int ((of_char (toupper c) :: nat) - 65)"
  by (auto simp: abcPosition_def char_val_nat of_char_toupper isalpha_def Let_def)

lemma abcPosition_range:
  "isalpha c \<Longrightarrow> 0 \<le> abcPosition c \<and> abcPosition c < 26"
  by (auto simp: abcPosition_def char_val_nat of_char_toupper isalpha_def Let_def)

lemma char_of_abcPosition:
  assumes "isalpha c"
  shows "char_of (65 + abcPosition c) = toupper c"
proof -
  have "65 \<le> (of_char (toupper c) :: nat)"
    using assms by (auto simp: of_char_toupper isalpha_def Let_def)
  then have "65 + abcPosition c = int (of_char (toupper c) :: nat)"
    using assms by (simp add: abcPosition_nat)
  then show ?thesis by simp
qed

lemma for_each_append:
  "for_each (xs @ ys) body s =
     (case for_each xs body s of Inl e \<Rightarrow> Inl e | Inr s' \<Rightarrow> for_each ys body s')"
  by (induction xs arbitrary: s) (auto split: sum.splits)

lemma upt_BASE: "[0..<BASE] = [0, 1, 2]"
  by (simp add: BASE_def upt_rec)

lemma trit_range: "i < 26 \<Longrightarrow> j < 3 \<Longrightarrow> TRIT_ALPHABET ! i ! j \<in> {0, 1, 2}"
proof -
  have "list_all (\<lambda>i. list_all (\<lambda>j. TRIT_ALPHABET ! i ! j \<in> {0, 1, 2}) [0..<3]) [0..<26]"
    by code_simp
  then show "i < 26 \<Longrightarrow> j < 3 \<Longrightarrow> TRIT_ALPHABET ! i ! j \<in> {0, 1, 2}"
    by (simp add: list_all_iff)
qed


lemma trit_row: "i < 26 \<Longrightarrow> TRIT_ALPHABET ! i = [TRIT_ALPHABET ! i ! 0, TRIT_ALPHABET ! i ! 1, TRIT_ALPHABET ! i ! 2]"
proof -
  have "list_all (\<lambda>i. TRIT_ALPHABET ! i = [TRIT_ALPHABET ! i ! 0, TRIT_ALPHABET ! i ! 1, TRIT_ALPHABET ! i ! 2]) [0..<26]"
    by code_simp
  then show "i < 26 \<Longrightarrow> ?thesis"
    by (simp add: list_all_iff)
qed

lemma trit_at_ok: "0 \<le> v \<Longrightarrow> v < 26 \<Longrightarrow> j < 3 \<Longrightarrow> trit_at v j = Inr (TRIT_ALPHABET ! nat v ! j)"
  by (simp add: trit_at_def ALPHABET_LENGTH_def BASE_def)

lemma glyph_at_ok: "t \<in> {0, 1, 2} \<Longrightarrow> glyph_at t = Inr (GLYPHS ! nat t)"
  by (auto simp: glyph_at_def BASE_def)

lemma glyph_at_trit: "i < 26 \<Longrightarrow> j < 3 \<Longrightarrow> glyph_at (TRIT_ALPHABET ! i ! j) = Inr (GLYPHS ! nat (TRIT_ALPHABET ! i ! j))"
  by (rule glyph_at_ok) (rule trit_range)

lemma encrypt_letter_ok:
  assumes "0 \<le> v" "v < 26"
  shows "encrypt_letter v ct = Inr (ct @ glyph_run (nat v))"
proof -
  have n: "nat v < 26" using assms by simp
  have run: "glyph_run (nat v) = GLYPHS ! nat (TRIT_ALPHABET ! nat v ! 0) @ GLYPHS ! nat (TRIT_ALPHABET ! nat v ! 1)
      @ GLYPHS ! nat (TRIT_ALPHABET ! nat v ! 2)"
    unfolding glyph_run_def by (subst trit_row [OF n]) simp
  show ?thesis
    unfolding encrypt_letter_def upt_BASE run
    by (simp add: trit_at_ok assms glyph_at_trit n)
qed

lemma encrypt_step_ok: "encrypt_step c ct = Inr (ct @ spec_static_char c)"
  by (simp add: encrypt_step_def spec_static_char_def Let_def encrypt_letter_ok abcPosition_range)

lemma for_each_encrypt: "for_each p encrypt_step ct = Inr (ct @ concat (map spec_static_char p))"
  by (induction p arbitrary: ct) (simp_all add: encrypt_step_ok)

lemma encrypt_eq: "encrypt p = Inr (concat (map spec_static_char p))"
  by (simp add: encrypt_def for_each_encrypt)


lemma abcSearch_row:
  "i < 26 \<Longrightarrow> abcSearch (TRIT_ALPHABET ! i ! 0) (TRIT_ALPHABET ! i ! 1) (TRIT_ALPHABET ! i ! 2) = int i"
proof -
  have "list_all (\<lambda>i. abcSearch (TRIT_ALPHABET ! i ! 0) (TRIT_ALPHABET ! i ! 1)
          (TRIT_ALPHABET ! i ! 2) = int i) [0..<26]"
    by code_simp
  then show "i < 26 \<Longrightarrow> ?thesis"
    by (simp add: list_all_iff)
qed

lemma substr_ok: "pos \<le> length s \<Longrightarrow> substr s pos n = Inr (take n (drop pos s))"
  by (simp add: substr_def)

lemma decrypt_loop_end: "length ct \<le> i \<Longrightarrow> decrypt_loop ct i acc = Inr acc"
  by (subst decrypt_loop.simps) simp

lemma decrypt_loop_literal:
  assumes "i < length ct" "\<not> isGlyph (take GLYPH_SIZE (drop i ct))"
  shows "decrypt_loop ct i acc = decrypt_loop ct (i + 1) (acc @ [ct ! i])"
  using assms by (subst decrypt_loop.simps) (simp add: substr_ok)

lemma glyph_length: "t \<in> {0, 1, 2} \<Longrightarrow> length (GLYPHS ! nat t) = 3"
  by (auto simp: GLYPHS_def)

lemma isGlyph_glyph: "t \<in> {0, 1, 2} \<Longrightarrow> isGlyph (GLYPHS ! nat t)"
  by (auto simp: isGlyph_def)

lemma glyphVal_glyph: "t \<in> {0, 1, 2} \<Longrightarrow> glyphVal (GLYPHS ! nat t) = t"
  by (auto simp: glyphVal_def GLYPHS_def)

lemma isGlyph_hd: "isGlyph w \<Longrightarrow> w \<noteq> [] \<and> hd w = CHR 0xE2"
  by (auto simp: isGlyph_def GLYPHS_def split: if_splits)

lemma decrypt_loop_run:
  assumes a: "a \<in> {0, 1, 2}" and b: "b \<in> {0, 1, 2}" and c: "c \<in> {0, 1, 2}"
  shows "decrypt_loop (pre @ GLYPHS ! nat a @ GLYPHS ! nat b @ GLYPHS ! nat c @ rest) (length pre) acc =
         decrypt_loop (pre @ GLYPHS ! nat a @ GLYPHS ! nat b @ GLYPHS ! nat c @ rest) (length pre + 9)
           (acc @ [char_of (65 + abcSearch a b c)])"
proof -
  let ?ct = "pre @ GLYPHS ! nat a @ GLYPHS ! nat b @ GLYPHS ! nat c @ rest"
  note len = glyph_length [OF a] glyph_length [OF b] glyph_length [OF c]
  have s1: "substr ?ct (length pre) GLYPH_SIZE = Inr (GLYPHS ! nat a)"
    by (simp add: substr_def GLYPH_SIZE_def len)
  have s2: "substr ?ct (length pre + GLYPH_SIZE) GLYPH_SIZE = Inr (GLYPHS ! nat b)"
    by (simp add: substr_def GLYPH_SIZE_def len)
  have s3: "substr ?ct (length pre + GLYPH_SIZE * 2) GLYPH_SIZE = Inr (GLYPHS ! nat c)"
    by (simp add: substr_def GLYPH_SIZE_def len)
  have lt: "length pre < length ?ct"
    by (simp add: len)
  have adv: "length pre + (GLYPH_SIZE * 3 - 1) + 1 = length pre + 9"
    by (simp add: GLYPH_SIZE_def)
  show ?thesis
    by (subst decrypt_loop.simps)
       (simp only: lt if_True s1 s2 s3 sum.case isGlyph_glyph [OF a] not_True_eq_False if_False
          Let_def glyphVal_glyph [OF a] glyphVal_glyph [OF b] glyphVal_glyph [OF c] adv)
qed


lemma glyph_run_split:
  "i < 26 \<Longrightarrow> glyph_run i = GLYPHS ! nat (TRIT_ALPHABET ! i ! 0) @ GLYPHS ! nat (TRIT_ALPHABET ! i ! 1)
      @ GLYPHS ! nat (TRIT_ALPHABET ! i ! 2)"
  unfolding glyph_run_def by (subst trit_row) simp_all

lemma trit_cols:
  assumes "i < 26"
  shows "TRIT_ALPHABET ! i ! 0 \<in> {0, 1, 2}"
    and "TRIT_ALPHABET ! i ! 1 \<in> {0, 1, 2}"
    and "TRIT_ALPHABET ! i ! 2 \<in> {0, 1, 2}"
  by (rule trit_range [OF assms], simp)+

lemma glyph_run_length:
  assumes "i < 26"
  shows "length (glyph_run i) = 9"
  using glyph_length [OF trit_cols(1) [OF assms]] glyph_length [OF trit_cols(2) [OF assms]]
    glyph_length [OF trit_cols(3) [OF assms]]
  by (simp only: glyph_run_split [OF assms] length_append)

lemma decrypt_loop_glyph_run:
  assumes "i < 26"
  shows "decrypt_loop (pre @ glyph_run i @ rest) (length pre) acc =
         decrypt_loop (pre @ glyph_run i @ rest) (length pre + 9) (acc @ [char_of (65 + int i)])"
  using decrypt_loop_run [OF trit_cols [OF assms], of pre rest acc]
  by (simp only: glyph_run_split [OF assms] abcSearch_row [OF assms] append_assoc)

lemma roundtrip_loop:
  assumes "\<forall>c \<in> set s. isalpha c \<or> c = CHR '' ''"
  shows "decrypt_loop (pre @ concat (map spec_static_char s)) (length pre) acc =
         Inr (acc @ map spec_decoded_char s)"
  using assms
proof (induction s arbitrary: pre acc)
  case Nil
  then show ?case by (simp add: decrypt_loop_end)
next
  case (Cons c s)
  let ?rest = "concat (map spec_static_char s)"
  from Cons.prems have tail: "\<forall>c \<in> set s. isalpha c \<or> c = CHR '' ''" by simp
  show ?case
  proof (cases "isalpha c")
    case True
    define i where "i = nat (abcPosition c)"
    have i: "i < 26" and pos: "int i = abcPosition c"
      using abcPosition_range [OF True] unfolding i_def by linarith+
    have ch: "char_of (65 + int i) = spec_decoded_char c"
      using True by (auto simp: pos char_of_abcPosition spec_decoded_char_def isalpha_def)
    have enc: "spec_static_char c = glyph_run i"
      using True by (simp add: spec_static_char_def i_def)
    have "decrypt_loop (pre @ glyph_run i @ ?rest) (length pre) acc =
          decrypt_loop ((pre @ glyph_run i) @ ?rest) (length (pre @ glyph_run i)) (acc @ [spec_decoded_char c])"
      by (simp add: decrypt_loop_glyph_run [OF i] ch glyph_run_length [OF i])
    also have "\<dots> = Inr ((acc @ [spec_decoded_char c]) @ map spec_decoded_char s)"
      by (rule Cons.IH [OF tail])
    finally show ?thesis by (simp add: enc)
  next
    case False
    with Cons.prems have sp: "c = CHR '' ''" by simp
    have enc: "spec_static_char c = ''/''"
      using False sp by (simp add: spec_static_char_def)
    have dc: "spec_decoded_char c = CHR ''/''"
      using sp by (simp add: spec_decoded_char_def)
    let ?ct = "pre @ ''/'' @ ?rest"
    have ng: "\<not> isGlyph (take GLYPH_SIZE (drop (length pre) ?ct))"
      using isGlyph_hd [of "take GLYPH_SIZE (drop (length pre) ?ct)"]
      by (auto simp: GLYPH_SIZE_def)
    have "decrypt_loop ?ct (length pre) acc =
          decrypt_loop ((pre @ ''/'') @ ?rest) (length (pre @ ''/'')) (acc @ ''/'')"
      using decrypt_loop_literal [OF _ ng, of acc] by simp
    also have "\<dots> = Inr ((acc @ ''/'') @ map spec_decoded_char s)"
      by (rule Cons.IH [OF tail])
    finally show ?thesis by (simp add: enc dc)
  qed
qed


lemma decrypt_loop_all_literal:
  assumes "\<forall>i < length ct. \<not> isGlyph (take GLYPH_SIZE (drop i ct))"
  shows "decrypt_loop ct i acc = Inr (acc @ drop i ct)"
proof (induction "length ct - i" arbitrary: i acc)
  case 0
  then show ?case by (simp add: decrypt_loop_end)
next
  case (Suc n)
  then have lt: "i < length ct" by simp
  with assms have ng: "\<not> isGlyph (take GLYPH_SIZE (drop i ct))" by simp
  have "decrypt_loop ct (i + 1) (acc @ [ct ! i]) = Inr ((acc @ [ct ! i]) @ drop (i + 1) ct)"
    using Suc.hyps by (intro Suc.hyps(1)) simp
  then show ?case
    using lt by (simp add: decrypt_loop_literal [OF lt ng] Cons_nth_drop_Suc)
qed

subsection \<open>The keyword ordering and the keyed table\<close>

lemma plain_alphabet_codes: "plain_alphabet = map char_of [65..<91 :: nat]"
  by code_simp

lemma in_plain_alphabet: "c \<in> set plain_alphabet \<longleftrightarrow> 65 \<le> (of_char c :: nat) \<and> (of_char c :: nat) \<le> 90"
proof
  assume "c \<in> set plain_alphabet"
  then obtain n :: nat where "65 \<le> n" "n < 91" "c = char_of n"
    by (auto simp: plain_alphabet_codes)
  then show "65 \<le> (of_char c :: nat) \<and> (of_char c :: nat) \<le> 90"
    by simp
next
  assume "65 \<le> (of_char c :: nat) \<and> (of_char c :: nat) \<le> 90"
  then have "(of_char c :: nat) \<in> set [65..<91]"
    unfolding set_upt atLeastLessThan_iff by linarith
  then have "char_of (of_char c :: nat) \<in> char_of ` set [65..<91 :: nat]"
    by (rule imageI)
  then show "c \<in> set plain_alphabet"
    by (simp add: plain_alphabet_codes)
qed

lemma distinct_plain_alphabet: "distinct plain_alphabet"
  by (simp add: plain_alphabet_def)

lemma length_plain_alphabet: "length plain_alphabet = 26"
  by (simp add: plain_alphabet_def)

lemma toupper_in_plain_alphabet: "isalpha c \<Longrightarrow> toupper c \<in> set plain_alphabet"
  by (auto simp: in_plain_alphabet of_char_toupper isalpha_def Let_def)

lemma fold_toupper: "fold (\<lambda>c keyedAlphabet. keyedAlphabet @ [toupper c]) key acc = acc @ map toupper key"
  by (induction key arbitrary: acc) simp_all

lemma filter_neq_id: "c \<notin> set xs \<Longrightarrow> filter (\<lambda>a. a \<noteq> c) xs = xs"
  by (induction xs) auto

lemma erase_first_filter: "distinct xs \<Longrightarrow> erase_first c xs = filter (\<lambda>a. a \<noteq> c) xs"
  by (induction xs) (auto simp: filter_neq_id)

lemma fold_erase_first:
  "distinct xs \<Longrightarrow> fold erase_first ks xs = filter (\<lambda>a. a \<notin> set ks) xs"
proof (induction ks arbitrary: xs)
  case Nil
  then show ?case by simp
next
  case (Cons k ks)
  have "fold erase_first ks (filter (\<lambda>a. a \<noteq> k) xs) = filter (\<lambda>a. a \<notin> set ks) (filter (\<lambda>a. a \<noteq> k) xs)"
    using Cons.prems by (intro Cons.IH) simp
  then show ?case
    using Cons.prems by (simp add: erase_first_filter conj_commute)
qed

lemma alphabetWithKey_eq:
  "alphabetWithKey key = map toupper key @ filter (\<lambda>a. a \<notin> set (map toupper key)) plain_alphabet"
  unfolding alphabetWithKey_def Let_def fold_toupper plain_alphabet_def [symmetric]
  by (simp add: fold_erase_first distinct_plain_alphabet)

lemma mset_prefix_filter:
  assumes "distinct ks" "set ks \<subseteq> set xs" "distinct xs"
  shows "mset (ks @ filter (\<lambda>a. a \<notin> set ks) xs) = mset xs"
proof -
  have "set ks = set (filter (\<lambda>a. a \<in> set ks) xs)"
    using assms(2) by auto
  moreover have "distinct (filter (\<lambda>a. a \<in> set ks) xs)"
    using assms(3) by simp
  ultimately have "mset ks = mset (filter (\<lambda>a. a \<in> set ks) xs)"
    using assms(1) set_eq_iff_mset_eq_distinct by blast
  then show ?thesis
    by simp
qed

lemma upper_scan_eq:
  "upper_scan key acc = (if \<forall>c \<in> set key. isalpha c then Some (acc @ map toupper key) else None)"
  by (induction key arbitrary: acc) auto

lemma card_set_length: "card (set xs) = length xs \<longleftrightarrow> distinct xs"
  using card_distinct distinct_card by blast

lemma keyValidation_perm_iff:
  "keyValidation_perm key \<longleftrightarrow> (\<forall>c \<in> set key. isalpha c) \<and> distinct (map toupper key)"
proof (cases "\<forall>c \<in> set key. isalpha c")
  case True
  then have "upper_scan key [] = Some (map toupper key)"
    by (simp add: upper_scan_eq)
  then have "keyValidation_perm key \<longleftrightarrow> card (set (map toupper key)) = length (map toupper key)"
    by (simp add: keyValidation_perm_def)
  then have "keyValidation_perm key \<longleftrightarrow> distinct (map toupper key)"
    unfolding card_set_length .
  with True show ?thesis
    by blast
next
  case False
  then have "upper_scan key [] = None"
    by (simp add: upper_scan_eq)
  with False show ?thesis
    by (simp add: keyValidation_perm_def)
qed

lemma alphabetWithKey_perm:
  assumes "\<forall>c \<in> set key. isalpha c" "distinct (map toupper key)"
  shows "mset (alphabetWithKey key) = mset plain_alphabet"
  unfolding alphabetWithKey_eq
  using assms by (intro mset_prefix_filter) (auto simp: toupper_in_plain_alphabet distinct_plain_alphabet)


lemma alphabetWithKey_length:
  assumes "\<forall>c \<in> set key. isalpha c" "distinct (map toupper key)"
  shows "length (alphabetWithKey key) = 26"
  using alphabetWithKey_perm [OF assms, THEN arg_cong [where f = size]]
  by (simp add: length_plain_alphabet)

lemma alphabetWithKey_set:
  assumes "\<forall>c \<in> set key. isalpha c" "distinct (map toupper key)"
  shows "set (alphabetWithKey key) = set plain_alphabet" and "distinct (alphabetWithKey key)"
proof -
  show "set (alphabetWithKey key) = set plain_alphabet"
    by (rule mset_eq_setD [OF alphabetWithKey_perm [OF assms]])
  show "distinct (alphabetWithKey key)"
    using mset_eq_imp_distinct_iff [OF alphabetWithKey_perm [OF assms]] distinct_plain_alphabet
    by blast
qed

lemma position_in_nth: "x \<in> set ys \<Longrightarrow> position_in ys x < length ys \<and> ys ! position_in ys x = x"
  by (induction ys) auto

lemma char_val_upper:
  "c \<in> set plain_alphabet \<Longrightarrow> char_val c - 65 = int ((of_char c :: nat) - 65)"
  by (auto simp: in_plain_alphabet char_val_nat)

lemma upper_index:
  "c \<in> set plain_alphabet \<Longrightarrow> 0 \<le> char_val c - 65 \<and> char_val c - 65 < 26"
  by (auto simp: in_plain_alphabet char_val_nat)

lemma upper_index_inj:
  assumes "c \<in> set plain_alphabet" "d \<in> set plain_alphabet" "nat (char_val c - 65) = nat (char_val d - 65)"
  shows "c = d"
proof -
  from assms(1,2) have r: "65 \<le> (of_char c :: nat)" "(of_char c :: nat) \<le> 90"
    "65 \<le> (of_char d :: nat)" "(of_char d :: nat) \<le> 90"
    by (simp_all add: in_plain_alphabet)
  then have v: "char_val c = int (of_char c)" "char_val d = int (of_char d)"
    by (simp_all add: char_val_nat)
  from assms(3) have "(of_char c :: nat) = of_char d"
    unfolding v using r by linarith
  then show ?thesis by (rule of_char_eqI)
qed

text \<open>The array after the first \<open>n\<close> rounds of \<^verbatim>\<open>keyedCipherAlphabet\<close>.\<close>

lemma keyedCipherAlphabet_rounds:
  assumes len: "length keyedAlphabet = 26" and dist: "distinct keyedAlphabet"
    and up: "set keyedAlphabet \<subseteq> set plain_alphabet" and out: "length out0 = 26"
  shows "n \<le> 26 \<Longrightarrow>
    \<exists>out. for_each [0..<n] (\<lambda>i output.
        case string_at keyedAlphabet i of
          Inl e \<Rightarrow> Inl e
        | Inr ch \<Rightarrow>
            (let index = char_val ch - 65 in
             if 0 \<le> index \<and> index < int ALPHABET_LENGTH
             then Inr (output[nat index := CIPHER_ALPHABET ! i])
             else Inl IndexOutOfBounds)) out0 = Inr out
      \<and> length out = 26
      \<and> (\<forall>i < n. out ! nat (char_val (keyedAlphabet ! i) - 65) = CIPHER_ALPHABET ! i)"
proof (induction n)
  case 0
  then show ?case by (simp add: out)
next
  case (Suc n)
  let ?body = "\<lambda>i output.
        case string_at keyedAlphabet i of
          Inl e \<Rightarrow> Inl e
        | Inr ch \<Rightarrow>
            (let index = char_val ch - 65 in
             if 0 \<le> index \<and> index < int ALPHABET_LENGTH
             then Inr (output[nat index := CIPHER_ALPHABET ! i])
             else Inl IndexOutOfBounds)"
  from Suc obtain out where run: "for_each [0..<n] ?body out0 = Inr out"
    and lo: "length out = 26"
    and tab: "\<forall>i < n. out ! nat (char_val (keyedAlphabet ! i) - 65) = CIPHER_ALPHABET ! i"
    by auto
  from Suc.prems have n: "n < 26" by simp
  then have mem: "keyedAlphabet ! n \<in> set plain_alphabet"
    using up len by (metis nth_mem subsetD)
  note ix = upper_index [OF mem]
  have step: "?body n out = Inr (out[nat (char_val (keyedAlphabet ! n) - 65) := CIPHER_ALPHABET ! n])"
    using n ix by (simp add: string_at_def len ALPHABET_LENGTH_def)
  have other: "nat (char_val (keyedAlphabet ! i) - 65) \<noteq> nat (char_val (keyedAlphabet ! n) - 65)" if "i < n" for i
  proof
    assume eq: "nat (char_val (keyedAlphabet ! i) - 65) = nat (char_val (keyedAlphabet ! n) - 65)"
    have "keyedAlphabet ! i \<in> set plain_alphabet"
      using up len that n by (metis nth_mem subsetD less_trans)
    from upper_index_inj [OF this mem eq] have "keyedAlphabet ! i = keyedAlphabet ! n" .
    with dist that n len show False
      by (simp add: nth_eq_iff_index_eq)
  qed
  have "for_each [0..<Suc n] ?body out0 = Inr (out[nat (char_val (keyedAlphabet ! n) - 65) := CIPHER_ALPHABET ! n])"
    by (simp add: for_each_append run step)
  moreover have "\<forall>i < Suc n. (out[nat (char_val (keyedAlphabet ! n) - 65) := CIPHER_ALPHABET ! n])
      ! nat (char_val (keyedAlphabet ! i) - 65) = CIPHER_ALPHABET ! i"
  proof (intro allI impI)
    fix i assume i: "i < Suc n"
    show "(out[nat (char_val (keyedAlphabet ! n) - 65) := CIPHER_ALPHABET ! n])
      ! nat (char_val (keyedAlphabet ! i) - 65) = CIPHER_ALPHABET ! i"
    proof (cases "i = n")
      case True
      have "nat (char_val (keyedAlphabet ! n) - 65) < length out"
        using ix lo by linarith
      with True show ?thesis by simp
    next
      case False
      with i have "i < n" by simp
      with tab other [of i] show ?thesis by simp
    qed
  qed
  ultimately show ?case
    using lo by simp
qed


lemma encrypt_perm_step_ok:
  "encrypt_perm_step alphabet c ct = Inr (ct @ (if isalpha c then alphabet ! nat (abcPosition c) else [c]))"
  using abcPosition_range [of c]
  by (simp add: encrypt_perm_step_def Let_def ALPHABET_LENGTH_def)

lemma for_each_encrypt_perm:
  "for_each p (encrypt_perm_step alphabet) ct =
     Inr (ct @ concat (map (\<lambda>c. if isalpha c then alphabet ! nat (abcPosition c) else [c]) p))"
  by (induction p arbitrary: ct) (simp_all add: encrypt_perm_step_ok)

lemma encrypt_perm_eq:
  "encrypt_perm p alphabet = Inr (concat (map (\<lambda>c. if isalpha c then alphabet ! nat (abcPosition c) else [c]) p))"
  by (simp add: encrypt_perm_def for_each_encrypt_perm)

lemma keyed_table:
  assumes "keyValidation_perm key" "length out0 = ALPHABET_LENGTH"
  shows "\<exists>keyedCipher.
      keyedCipherAlphabet (alphabetWithKey key) out0 = Inr keyedCipher
    \<and> (\<forall>i < ALPHABET_LENGTH. keyedCipher ! nat (char_val (alphabetWithKey key ! i) - 65) = CIPHER_ALPHABET ! i)
    \<and> (\<forall>plaintext. encrypt_perm plaintext keyedCipher =
          Inr (concat (map (spec_perm_char (alphabetWithKey key)) plaintext)))"
proof -
  let ?ord = "alphabetWithKey key"
  from assms(1) have k: "\<forall>c \<in> set key. isalpha c" "distinct (map toupper key)"
    by (simp_all add: keyValidation_perm_iff)
  note len = alphabetWithKey_length [OF k] and st = alphabetWithKey_set [OF k]
  from keyedCipherAlphabet_rounds [OF len st(2) _ _ order_refl, of out0] st(1) assms(2)
  obtain out where run: "keyedCipherAlphabet ?ord out0 = Inr out"
    and tab: "\<forall>i < 26. out ! nat (char_val (?ord ! i) - 65) = CIPHER_ALPHABET ! i"
    unfolding keyedCipherAlphabet_def ALPHABET_LENGTH_def by auto
  have letter: "out ! nat (abcPosition c) = CIPHER_ALPHABET ! position_in ?ord (toupper c)" if "isalpha c" for c
  proof -
    from that have "toupper c \<in> set ?ord"
      by (simp add: st(1) toupper_in_plain_alphabet)
    from position_in_nth [OF this] len
    have "position_in ?ord (toupper c) < 26" "?ord ! position_in ?ord (toupper c) = toupper c"
      by simp_all
    with tab have "out ! nat (char_val (toupper c) - 65) = CIPHER_ALPHABET ! position_in ?ord (toupper c)"
      by metis
    then show ?thesis by (simp add: abcPosition_def Let_def)
  qed
  have "encrypt_perm plaintext out = Inr (concat (map (spec_perm_char ?ord) plaintext))" for plaintext
    unfolding encrypt_perm_eq spec_perm_char_def
    by (rule arg_cong [where f = "\<lambda>xs. Inr (concat xs)"], rule map_cong) (simp_all add: letter)
  with run tab show ?thesis
    by (auto simp: ALPHABET_LENGTH_def)
qed


subsection \<open>The keyed-additive encoder\<close>

lemma small_alphabet_codes: "small_alphabet = map char_of [97..<123 :: nat]"
  by code_simp

lemma in_small_alphabet:
  assumes "97 \<le> (of_char c :: nat) \<and> (of_char c :: nat) \<le> 122"
  shows "c \<in> set small_alphabet"
proof -
  from assms have "(of_char c :: nat) \<in> set [97..<123]"
    unfolding set_upt atLeastLessThan_iff by linarith
  then have "char_of (of_char c :: nat) \<in> char_of ` set [97..<123 :: nat]"
    by (rule imageI)
  then show ?thesis
    by (simp add: small_alphabet_codes)
qed

lemma isalpha_in_alphabets: "isalpha c \<Longrightarrow> c \<in> set (plain_alphabet @ small_alphabet)"
  by (auto simp: isalpha_def Let_def in_plain_alphabet in_small_alphabet)

lemma all_alpha_from_iff: "all_alpha_from key \<longleftrightarrow> (\<forall>c \<in> set key. isalpha c)"
  by (induction key) auto

lemma keyValidation_iff: "keyValidation key \<longleftrightarrow> key \<noteq> [] \<and> (\<forall>c \<in> set key. isalpha c)"
  by (simp add: keyValidation_def all_alpha_from_iff)

lemma glyph_at_mod: "glyph_at (x mod 3) = Inr (GLYPHS ! nat (x mod 3))"
  by (simp add: glyph_at_def BASE_def)

lemma upt_3: "[0..<3] = [0, 1, 2]"
  by (simp add: upt_rec)

lemma encrypt_keyed_letter_ok:
  assumes "0 \<le> p" "p < 26" "0 \<le> k" "k < 26"
  shows "encrypt_keyed_letter p k ct = Inr (ct @ spec_additive_run (nat p) (nat k))"
  unfolding encrypt_keyed_letter_def upt_BASE spec_additive_run_def upt_3
  by (simp add: trit_at_ok assms glyph_at_mod Let_def)

lemma key_char_alpha:
  assumes "key \<noteq> []" "\<forall>c \<in> set key. isalpha c"
  shows "isalpha (key ! (k mod length key))"
  using assms by simp

lemma encrypt_keyed_step_ok:
  assumes "key \<noteq> []" "\<forall>c \<in> set key. isalpha c"
  shows "encrypt_keyed_step key c (ct, k) =
         Inr (ct @ keyed_piece key k c, if isalpha c then k + 1 else k)"
  using abcPosition_range [OF key_char_alpha [OF assms, of k]] abcPosition_range [of c] assms(1)
  by (simp add: encrypt_keyed_step_def keyed_piece_def Let_def encrypt_keyed_letter_ok)

lemma letters_before_Cons:
  "letters_before (c # cs) (Suc i) = (if isalpha c then 1 else 0) + letters_before cs i"
  by (simp add: letters_before_def)

lemma for_each_keyed:
  assumes "key \<noteq> []" "\<forall>c \<in> set key. isalpha c"
  shows "for_each p (encrypt_keyed_step key) (ct, k) =
         Inr (ct @ concat (map (\<lambda>i. keyed_piece key (k + letters_before p i) (p ! i)) [0..<length p]),
              k + length (filter isalpha p))"
proof (induction p arbitrary: ct k)
  case Nil
  then show ?case by simp
next
  case (Cons c cs)
  have upt: "[0..<length (c # cs)] = 0 # map Suc [0..<length cs]"
    by (simp add: upt_conv_Cons map_Suc_upt del: upt_Suc)
  show ?case
    unfolding upt
    by (simp add: encrypt_keyed_step_ok [OF assms] Cons.IH letters_before_Cons o_def
        letters_before_def add.assoc)
qed

lemma encrypt_keyed_eq:
  assumes "key \<noteq> []" "\<forall>c \<in> set key. isalpha c"
  shows "encrypt_keyed plaintext key =
         Inr (concat (map (\<lambda>i. keyed_piece key (letters_before plaintext i) (plaintext ! i))
                [0..<length plaintext]))"
  by (simp add: encrypt_keyed_def for_each_keyed [OF assms])

lemma keyed_piece_rotate:
  assumes "key \<noteq> []"
  shows "keyed_piece (rotate m key) k c = keyed_piece key (m + k) c"
proof -
  have "rotate m key ! (k mod length key) = key ! ((m + k mod length key) mod length key)"
    using assms by (simp add: nth_rotate)
  also have "(m + k mod length key) mod length key = (m + k) mod length key"
    by (simp add: mod_add_right_eq)
  finally show ?thesis
    by (simp add: keyed_piece_def)
qed

lemma for_each_keyed_out:
  assumes "key \<noteq> []" "\<forall>c \<in> set key. isalpha c"
  shows "for_each p (encrypt_keyed_step key) (ct, k) =
         (case encrypt_keyed p (rotate k key) of Inl e \<Rightarrow> Inl e
          | Inr out \<Rightarrow> Inr (ct @ out, k + length (filter isalpha p)))"
proof -
  have r: "rotate k key \<noteq> []" "\<forall>c \<in> set (rotate k key). isalpha c"
    using assms by simp_all
  show ?thesis
    by (simp add: for_each_keyed [OF assms] encrypt_keyed_eq [OF r] keyed_piece_rotate [OF assms(1)])
qed

lemma encrypt_keyed_space:
  assumes "key \<noteq> []" "\<forall>c \<in> set key. isalpha c"
  shows "\<exists>a b. encrypt_keyed p key = Inr a
       \<and> encrypt_keyed q (rotate (length (filter isalpha p)) key) = Inr b
       \<and> encrypt_keyed (p @ CHR '' '' # q) key = Inr (a @ ''/'' @ b)"
proof -
  have r: "rotate k key \<noteq> []" "\<forall>c \<in> set (rotate k key). isalpha c" for k
    using assms by simp_all
  obtain a where a: "encrypt_keyed p key = Inr a"
    by (simp add: encrypt_keyed_eq [OF assms])
  obtain b where b: "encrypt_keyed q (rotate (length (filter isalpha p)) key) = Inr b"
    by (simp add: encrypt_keyed_eq [OF r])
  have pa: "for_each p (encrypt_keyed_step key) ([], 0) = Inr (a, length (filter isalpha p))"
    using a by (simp add: for_each_keyed_out [OF assms])
  have step: "encrypt_keyed_step key (CHR '' '') (a, n) = Inr (a @ ''/'', n)" for n
    by (simp add: encrypt_keyed_step_def isalpha_def)
  have "for_each (p @ CHR '' '' # q) (encrypt_keyed_step key) ([], 0) =
        for_each q (encrypt_keyed_step key) (a @ ''/'', length (filter isalpha p))"
    by (simp add: for_each_append pa step)
  also have "\<dots> = Inr ((a @ ''/'') @ b, length (filter isalpha p) + length (filter isalpha q))"
    by (simp add: for_each_keyed_out [OF assms] b)
  finally have "encrypt_keyed (p @ CHR '' '' # q) key = Inr (a @ ''/'' @ b)"
    by (simp add: encrypt_keyed_def)
  with a b show ?thesis by blast
qed

lemma encrypt_space:
  "\<exists>a b. encrypt p = Inr a \<and> encrypt q = Inr b \<and> encrypt (p @ CHR '' '' # q) = Inr (a @ ''/'' @ b)"
  by (simp add: encrypt_eq spec_static_char_def isalpha_def)

lemma encrypt_perm_space:
  "\<exists>a b. encrypt_perm p alphabet = Inr a \<and> encrypt_perm q alphabet = Inr b
       \<and> encrypt_perm (p @ CHR '' '' # q) alphabet = Inr (a @ '' '' @ b)"
  by (simp add: encrypt_perm_eq isalpha_def)


subsection \<open>The code table\<close>

text \<open>
  C2. For every letter index \<open>i\<close> in [0,25], \<open>abcSearch\<close> applied to the three trits of row
  \<open>i\<close> of \<open>TRIT_ALPHABET\<close> returns \<open>i\<close>; the 26 rows are pairwise distinct, and each is a
  triple over {0,1,2}.
\<close>

theorem abcSearch_inverts_table:
  "(\<forall>i < ALPHABET_LENGTH.
      abcSearch (TRIT_ALPHABET ! i ! 0) (TRIT_ALPHABET ! i ! 1) (TRIT_ALPHABET ! i ! 2) = int i)
   \<and> length TRIT_ALPHABET = ALPHABET_LENGTH
   \<and> distinct TRIT_ALPHABET
   \<and> (\<forall>row \<in> set TRIT_ALPHABET. length row = BASE \<and> set row \<subseteq> {0, 1, 2})"
proof -
  have inv: "\<forall>i < ALPHABET_LENGTH.
      abcSearch (TRIT_ALPHABET ! i ! 0) (TRIT_ALPHABET ! i ! 1) (TRIT_ALPHABET ! i ! 2) = int i"
    unfolding ALPHABET_LENGTH_def using abcSearch_row by blast
  have len: "length TRIT_ALPHABET = ALPHABET_LENGTH"
    by (simp add: TRIT_ALPHABET_def ALPHABET_LENGTH_def)
  have dist: "distinct TRIT_ALPHABET"
    by (simp add: TRIT_ALPHABET_def)
  have "list_all (\<lambda>row. length row = BASE \<and> list_all (\<lambda>t. t = 0 \<or> t = 1 \<or> t = 2) row) TRIT_ALPHABET"
    by (simp add: TRIT_ALPHABET_def BASE_def)
  then have rows: "\<forall>row \<in> set TRIT_ALPHABET. length row = BASE \<and> set row \<subseteq> {0, 1, 2}"
    by (auto simp: list_all_iff)
  from inv len dist rows show ?thesis by blast
qed

theorem abcSearch_inverts_table_witness:
  "abcSearch 0 2 2 = 7 \<and> [0, 2, 2] \<in> set TRIT_ALPHABET \<and> length [0, 2, 2 :: int] = BASE"
proof -
  have i: "(7::nat) < ALPHABET_LENGTH" by (simp add: ALPHABET_LENGTH_def)
  have r: "TRIT_ALPHABET ! 7 = [0, 2, 2]" by (simp add: TRIT_ALPHABET_def)
  have m: "[0, 2, 2] \<in> set TRIT_ALPHABET" by (simp add: TRIT_ALPHABET_def)
  from abcSearch_inverts_table i r m show ?thesis by (auto simp: BASE_def)
qed

subsection \<open>Static round trip\<close>

text \<open>
  C1, as the claim states it, fails: the decoder copies \<open>/\<close> through, it does not map it back
  to a space.  Decoding the encoding of \<open>a b\<close> gives \<open>A/B\<close>, not \<open>A B\<close>.
\<close>

theorem roundtrip_space_counterexample:
  "decrypt_encrypt ''a b'' = Inr ''A/B'' \<and> decrypt_encrypt ''a b'' \<noteq> Inr (map toupper ''a b'')"
  by code_simp

text \<open>
  C1, amended. For every string \<open>s\<close> of ASCII letters and spaces, the static encoder and then
  the decoder succeed, and the result is \<open>s\<close> with every letter in upper case and every space
  replaced by \<open>/\<close>; when \<open>s\<close> has letters only, it is \<open>s\<close> in upper case.
\<close>

theorem static_roundtrip:
  assumes "\<forall>c \<in> set s. isalpha c \<or> c = CHR '' ''"
  shows "decrypt_encrypt s = Inr (map (\<lambda>c. if c = CHR '' '' then CHR ''/'' else toupper c) s)
         \<and> ((\<forall>c \<in> set s. isalpha c) \<longrightarrow> decrypt_encrypt s = Inr (map toupper s))"
proof -
  have eq: "decrypt_encrypt s = Inr (map spec_decoded_char s)"
    using roundtrip_loop [OF assms, of "[]" "[]"]
    by (simp add: decrypt_encrypt_def encrypt_eq decrypt_def)
  have "map spec_decoded_char s = map toupper s" if "\<forall>c \<in> set s. isalpha c"
    using that by (auto simp: spec_decoded_char_def isalpha_def)
  with eq show ?thesis
    by (auto simp: spec_decoded_char_def [abs_def])
qed

theorem static_roundtrip_witness:
  "list_all (\<lambda>c. isalpha c \<or> c = CHR '' '') ''Hi you'' \<and> decrypt_encrypt ''Hi you'' = Inr ''HI/YOU''
   \<and> list_all isalpha ''Hi'' \<and> decrypt_encrypt ''Hi'' = Inr ''HI''"
proof -
  have h: "\<forall>c \<in> set ''Hi you''. isalpha c \<or> c = CHR '' ''"
    by (simp add: isalpha_def)
  have m: "map (\<lambda>c. if c = CHR '' '' then CHR ''/'' else toupper c) ''Hi you'' = ''HI/YOU''"
    by code_simp
  from static_roundtrip [OF h] have one: "decrypt_encrypt ''Hi you'' = Inr ''HI/YOU''"
    by (simp only: m)
  have l: "\<forall>c \<in> set ''Hi''. isalpha c"
    by (simp add: isalpha_def)
  then have h': "\<forall>c \<in> set ''Hi''. isalpha c \<or> c = CHR '' ''"
    by blast
  have m': "map toupper ''Hi'' = ''HI''"
    by code_simp
  from static_roundtrip [OF h'] l have "decrypt_encrypt ''Hi'' = Inr (map toupper ''Hi'')"
    by blast
  then have two: "decrypt_encrypt ''Hi'' = Inr ''HI''"
    by (simp only: m')
  from h l one two show ?thesis
    by (simp only: list_all_iff simp_thms)
qed

subsection \<open>The keyword ordering\<close>

text \<open>
  C3, as the claim states it, fails for a keyword with a repeated letter: every occurrence is
  copied to the front, and only the first one finds a letter of the alphabet to erase.
\<close>

theorem alphabetWithKey_repeated_counterexample:
  "list_all isalpha ''aabb''
   \<and> alphabetWithKey ''aabb'' = ''AABBCDEFGHIJKLMNOPQRSTUVWXYZ''
   \<and> length (alphabetWithKey ''aabb'') = 28"
  by code_simp

text \<open>
  C3, amended. For every keyword of alphabetic characters in which no letter is repeated
  (ignoring case), \<open>alphabetWithKey\<close> returns a string of length exactly 26 that is a
  permutation of A-Z: the keyword's letters in upper case, in their order, followed by the
  remaining letters in alphabetical order.
\<close>

theorem alphabetWithKey_unique_letters:
  assumes "\<forall>c \<in> set key. isalpha c" and "distinct (map toupper key)"
  shows "length (alphabetWithKey key) = 26
    \<and> mset (alphabetWithKey key) = mset plain_alphabet
    \<and> alphabetWithKey key =
        map toupper key @ filter (\<lambda>a. a \<notin> set (map toupper key)) plain_alphabet"
  using alphabetWithKey_length [OF assms] alphabetWithKey_perm [OF assms] alphabetWithKey_eq [of key]
  by blast

theorem alphabetWithKey_unique_letters_witness:
  "list_all isalpha ''Key'' \<and> distinct (map toupper ''Key'')
   \<and> length (alphabetWithKey ''Key'') = 26
   \<and> alphabetWithKey ''Key'' = ''KEYABCDFGHIJLMNOPQRSTUVWXZ''"
proof -
  have a: "\<forall>c \<in> set ''Key''. isalpha c"
    by (simp add: isalpha_def)
  have d: "distinct (map toupper ''Key'')"
    by code_simp
  have v: "alphabetWithKey ''Key'' = ''KEYABCDFGHIJLMNOPQRSTUVWXZ''"
    by code_simp
  from alphabetWithKey_unique_letters [OF a d] have "length (alphabetWithKey ''Key'') = 26"
    by blast
  with a d v show ?thesis
    by (simp only: list_all_iff simp_thms)
qed

subsection \<open>Key validation\<close>

text \<open>
  C4. The two validators on the keys of the claim.  The validator of the permutation
  encoder accepts the empty key (the loop body never runs and the empty set has the size of the
  empty string), where the claim says that every mode rejects it; the validator of Delta-K
  rejects it.  The other five values are as the claim says.
\<close>

theorem keyValidation_on_samples:
  "keyValidation_perm [] = True \<and> keyValidation [] = False
   \<and> keyValidation_perm ''aabb'' = False \<and> keyValidation ''aabb'' = True
   \<and> keyValidation_perm ''a1b'' = False \<and> keyValidation ''a1b'' = False"
  by code_simp

subsection \<open>The keyed table\<close>

text \<open>
  C7. For every key accepted by the validator of the permutation encoder,
  \<open>keyedCipherAlphabet (alphabetWithKey key)\<close> succeeds on any 26-entry array and stores, at
  the slot of the \<open>i\<close>-th letter of the keyword ordering, the glyph run that \<open>CIPHER_ALPHABET\<close>
  has at \<open>i\<close>; so the encoder writes for each letter the entry of \<open>CIPHER_ALPHABET\<close> at
  the position of the letter in the ordering, and copies every other character.
\<close>

theorem keyed_table_follows_ordering:
  assumes "keyValidation_perm key"
  shows "(\<forall>output. length output = ALPHABET_LENGTH \<longrightarrow>
            (\<exists>keyedCipher.
                keyedCipherAlphabet (alphabetWithKey key) output = Inr keyedCipher
              \<and> (\<forall>i < ALPHABET_LENGTH.
                    keyedCipher ! nat (char_val (alphabetWithKey key ! i) - 65) = CIPHER_ALPHABET ! i)
              \<and> (\<forall>plaintext. encrypt_perm plaintext keyedCipher =
                    Inr (concat (map (spec_perm_char (alphabetWithKey key)) plaintext)))))
    \<and> (\<forall>plaintext. encrypt_with_key plaintext key =
          Inr (concat (map (spec_perm_char (alphabetWithKey key)) plaintext)))"
proof -
  have "length (replicate ALPHABET_LENGTH ([] :: string)) = ALPHABET_LENGTH"
    by simp
  from keyed_table [OF assms this]
  have "encrypt_with_key plaintext key =
          Inr (concat (map (spec_perm_char (alphabetWithKey key)) plaintext))" for plaintext
    by (auto simp: encrypt_with_key_def)
  with keyed_table [OF assms] show ?thesis
    by blast
qed

theorem keyed_table_follows_ordering_witness:
  "keyValidation_perm ''KEY''
   \<and> alphabetWithKey ''KEY'' = ''KEYABCDFGHIJLMNOPQRSTUVWXZ''
   \<and> length (replicate ALPHABET_LENGTH ([] :: string)) = ALPHABET_LENGTH
   \<and> projr (keyedCipherAlphabet (alphabetWithKey ''KEY'') (replicate ALPHABET_LENGTH [])) ! 10
       = CIPHER_ALPHABET ! 0
   \<and> encrypt_with_key ''a, k'' ''KEY'' = Inr (CIPHER_ALPHABET ! 3 @ '', '' @ CIPHER_ALPHABET ! 0)"
proof -
  have k: "keyValidation_perm ''KEY''"
    by code_simp
  have o: "alphabetWithKey ''KEY'' = ''KEYABCDFGHIJLMNOPQRSTUVWXZ''"
    by code_simp
  have l: "length (replicate ALPHABET_LENGTH ([] :: string)) = ALPHABET_LENGTH"
    by simp
  have z: "(0::nat) < ALPHABET_LENGTH"
    by (simp add: ALPHABET_LENGTH_def)
  have slot: "nat (char_val (alphabetWithKey ''KEY'' ! 0) - 65) = 10"
    by code_simp
  from keyed_table_follows_ordering [OF k] l
  obtain keyedCipher where
    run: "keyedCipherAlphabet (alphabetWithKey ''KEY'') (replicate ALPHABET_LENGTH []) = Inr keyedCipher"
    and tab: "\<forall>i < ALPHABET_LENGTH.
      keyedCipher ! nat (char_val (alphabetWithKey ''KEY'' ! i) - 65) = CIPHER_ALPHABET ! i"
    by blast
  from tab z have "keyedCipher ! nat (char_val (alphabetWithKey ''KEY'' ! 0) - 65) = CIPHER_ALPHABET ! 0"
    by blast
  then have t: "projr (keyedCipherAlphabet (alphabetWithKey ''KEY'') (replicate ALPHABET_LENGTH [])) ! 10
      = CIPHER_ALPHABET ! 0"
    by (simp only: run slot sum.sel)
  have m: "concat (map (spec_perm_char (alphabetWithKey ''KEY'')) ''a, k'')
      = CIPHER_ALPHABET ! 3 @ '', '' @ CIPHER_ALPHABET ! 0"
    by code_simp
  from keyed_table_follows_ordering [OF k]
  have "encrypt_with_key ''a, k'' ''KEY'' = Inr (concat (map (spec_perm_char (alphabetWithKey ''KEY'')) ''a, k''))"
    by blast
  with k o l t m show ?thesis
    by (simp only: simp_thms)
qed

subsection \<open>Keyed-additive encoding\<close>

text \<open>
  C5. For every plaintext and every non-empty alphabetic key, the keyed-additive encoder
  succeeds and its output is the concatenation, over the positions of the plaintext, of: for
  an alphabetic character with \<open>k\<close> alphabetic characters before it, the three glyphs of the
  triple whose \<open>j\<close>-th trit is \<open>(plainTrit[j] + keyTrit[j]) mod 3\<close>, where \<open>plainTrit\<close> is
  the row of the letter index of the character and \<open>keyTrit\<close> the row of the letter index of
  the key letter \<open>key[k mod len(key)]\<close>; \<open>/\<close> for a space; the character itself otherwise.
  Only alphabetic characters are counted in \<open>k\<close>.  The letter index is the position of the
  letter in the alphabet, in either case, and \<open>abcPosition\<close> computes it for every letter.
\<close>

theorem keyed_additive_encoding:
  assumes "key \<noteq> []" and "\<forall>c \<in> set key. isalpha c"
  shows "encrypt_keyed plaintext key =
           Inr (concat (map (\<lambda>i. spec_additive_char key (letters_before plaintext i) (plaintext ! i))
                  [0..<length plaintext]))
         \<and> (\<forall>c. isalpha c \<longrightarrow> abcPosition c = int (spec_letter_index c))"
proof -
  have upper: "list_all (\<lambda>c. abcPosition c = int (spec_letter_index c)) plain_alphabet"
    by code_simp
  have lower: "list_all (\<lambda>c. abcPosition c = int (spec_letter_index c)) small_alphabet"
    by code_simp
  have ix: "abcPosition c = int (spec_letter_index c)" if "isalpha c" for c
    using isalpha_in_alphabets [OF that] upper lower
    unfolding list_all_iff by auto
  have "keyed_piece key k c = spec_additive_char key k c" for k c
    using ix [of c] ix [OF key_char_alpha [OF assms, of k]]
    by (simp add: keyed_piece_def spec_additive_char_def)
  then have "encrypt_keyed plaintext key =
           Inr (concat (map (\<lambda>i. spec_additive_char key (letters_before plaintext i) (plaintext ! i))
                  [0..<length plaintext]))"
    by (simp add: encrypt_keyed_eq [OF assms])
  with ix show ?thesis
    by blast
qed

theorem keyed_additive_encoding_witness:
  "''Bc'' \<noteq> [] \<and> list_all isalpha ''Bc''
   \<and> map spec_letter_index ''AbBc'' = [0, 1, 1, 2]
   \<and> map abcPosition ''AbBc'' = [0, 1, 1, 2]
   \<and> encrypt_keyed ''A1 Ab'' ''Bc'' =
       Inr ((tri_up @ tri_up @ tri_up) @ ''1/'' @ (tri_up @ tri_down @ tri_down) @ (tri_up @ tri_up @ tri_down))"
proof -
  have n: "''Bc'' \<noteq> []" by simp
  have a: "\<forall>c \<in> set ''Bc''. isalpha c" by (simp add: isalpha_def)
  have ix: "map spec_letter_index ''AbBc'' = [0, 1, 1, 2]"
    by code_simp
  have l: "isalpha CHR ''A''" "isalpha CHR ''b''" "isalpha CHR ''B''" "isalpha CHR ''c''"
    by (simp_all add: isalpha_def)
  have m: "concat (map (\<lambda>i. spec_additive_char ''Bc'' (letters_before ''A1 Ab'' i) (''A1 Ab'' ! i))
                [0..<length ''A1 Ab''])
      = (tri_up @ tri_up @ tri_up) @ ''1/'' @ (tri_up @ tri_down @ tri_down) @ (tri_up @ tri_up @ tri_down)"
    by code_simp
  note inst = keyed_additive_encoding [OF n a, of "''A1 Ab''"]
  from inst l have "map abcPosition ''AbBc'' = map (\<lambda>c. int (spec_letter_index c)) ''AbBc''"
    by simp
  also have "\<dots> = map int (map spec_letter_index ''AbBc'')"
    by simp
  finally have p: "map abcPosition ''AbBc'' = [0, 1, 1, 2]"
    unfolding ix by simp
  from inst
  have "encrypt_keyed ''A1 Ab'' ''Bc'' =
       Inr ((tri_up @ tri_up @ tri_up) @ ''1/'' @ (tri_up @ tri_down @ tri_down) @ (tri_up @ tri_up @ tri_down))"
    by (simp only: m)
  with n a ix p show ?thesis
    by (simp only: list_all_iff simp_thms)
qed

subsection \<open>Spaces\<close>

text \<open>
  C6, as the claim states it, fails for the keyed-permutation encoder: it has no branch for
  the space, which is not a letter and is appended as it is.
\<close>

theorem perm_space_counterexample:
  "keyValidation_perm ''KEY''
   \<and> encrypt_with_key ''a b'' ''KEY'' = Inr (CIPHER_ALPHABET ! 3 @ '' '' @ CIPHER_ALPHABET ! 4)
   \<and> CHR ''/'' \<notin> set (CIPHER_ALPHABET ! 3 @ '' '' @ CIPHER_ALPHABET ! 4)"
  by code_simp

text \<open>
  C6, amended. The static encoder and the keyed-additive encoder (with a validated key) write
  the single character \<open>/\<close> for each space of the plaintext: the output for \<open>p\<close>, a space and
  \<open>q\<close> is the output for \<open>p\<close>, then \<open>/\<close>, then the output for \<open>q\<close> (for the additive
  encoder, \<open>q\<close> encoded with the key rotated by the number of letters of \<open>p\<close>).  The
  keyed-permutation encoder copies the space unchanged.
\<close>

theorem space_separator:
  "(\<exists>a b. encrypt p = Inr a \<and> encrypt q = Inr b
        \<and> encrypt (p @ CHR '' '' # q) = Inr (a @ ''/'' @ b))
   \<and> (keyValidation key \<longrightarrow>
        (\<exists>a b. encrypt_keyed p key = Inr a
            \<and> encrypt_keyed q (rotate (length (filter isalpha p)) key) = Inr b
            \<and> encrypt_keyed (p @ CHR '' '' # q) key = Inr (a @ ''/'' @ b)))
   \<and> (\<exists>a b. encrypt_perm p alphabet = Inr a \<and> encrypt_perm q alphabet = Inr b
        \<and> encrypt_perm (p @ CHR '' '' # q) alphabet = Inr (a @ '' '' @ b))"
  using encrypt_space [of p q] encrypt_perm_space [of p alphabet q] encrypt_keyed_space [of key p q]
  unfolding keyValidation_iff by blast

theorem space_separator_witness:
  "keyValidation ''bc''
   \<and> encrypt_keyed ''a b'' ''bc'' = Inr (spec_additive_run 0 1 @ ''/'' @ spec_additive_run 1 2)"
proof -
  have k: "keyValidation ''bc''"
    by code_simp
  from space_separator [of "''a''" "''b''" "''bc''"] k
  obtain a b where a: "encrypt_keyed ''a'' ''bc'' = Inr a"
    and b: "encrypt_keyed ''b'' (rotate (length (filter isalpha ''a'')) ''bc'') = Inr b"
    and ab: "encrypt_keyed (''a'' @ CHR '' '' # ''b'') ''bc'' = Inr (a @ ''/'' @ b)"
    by blast
  have "encrypt_keyed ''a'' ''bc'' = Inr (spec_additive_run 0 1)"
    by code_simp
  with a have a': "a = spec_additive_run 0 1" by simp
  have "encrypt_keyed ''b'' (rotate (length (filter isalpha ''a'')) ''bc'') = Inr (spec_additive_run 1 2)"
    by code_simp
  with b have b': "b = spec_additive_run 1 2" by simp
  from ab have "encrypt_keyed ''a b'' ''bc'' = Inr (spec_additive_run 0 1 @ ''/'' @ spec_additive_run 1 2)"
    unfolding a' b' by simp
  with k show ?thesis by blast
qed

subsection \<open>The encoders are total\<close>

text \<open>
  C9, as the claim states it, fails: a non-empty key is not enough.  With the key \<open>1\<close> the
  row of the key character is \<open>'1' - 'A' = -16\<close>, outside the table.
\<close>

theorem encrypt_keyed_digit_key_counterexample:
  "''1'' \<noteq> [] \<and> abcPosition CHR ''1'' = - 16 \<and> encrypt_keyed ''A'' ''1'' = Inl IndexOutOfBounds"
  by code_simp

text \<open>
  C9, amended. Every encode path is total on the inputs its validator admits: the static
  encoder and the table-driven encoder of the permutation program never fail for any
  plaintext; the keyed-permutation path never fails for a key accepted by its validator; the
  keyed-additive encoder never fails for any plaintext whenever its key is non-empty and
  made of ASCII letters only, which is what its validator accepts.
\<close>

theorem encoders_total:
  "(\<exists>ct. encrypt plaintext = Inr ct)
   \<and> (\<exists>ct. encrypt_perm plaintext alphabet = Inr ct)
   \<and> (keyValidation_perm key \<longrightarrow> (\<exists>ct. encrypt_with_key plaintext key = Inr ct))
   \<and> (key \<noteq> [] \<and> (\<forall>c \<in> set key. isalpha c) \<longrightarrow> (\<exists>ct. encrypt_keyed plaintext key = Inr ct))
   \<and> (keyValidation key \<longleftrightarrow> key \<noteq> [] \<and> (\<forall>c \<in> set key. isalpha c))"
proof -
  have "\<exists>ct. encrypt_with_key plaintext key = Inr ct" if "keyValidation_perm key"
    using keyed_table [OF that, of "replicate ALPHABET_LENGTH []"]
    by (auto simp: encrypt_with_key_def)
  moreover have "\<exists>ct. encrypt_keyed plaintext key = Inr ct" if "key \<noteq> [] \<and> (\<forall>c \<in> set key. isalpha c)"
    using that by (simp add: encrypt_keyed_eq)
  ultimately show ?thesis
    using keyValidation_iff [of key] by (simp add: encrypt_eq encrypt_perm_eq)
qed

theorem encoders_total_witness:
  "keyValidation ''Key'' \<and> keyValidation_perm ''Key''
   \<and> \<not> isl (encrypt_keyed ''a1 b'' ''Key'') \<and> \<not> isl (encrypt_with_key ''a1 b'' ''Key'')"
proof -
  have k: "keyValidation ''Key''" "keyValidation_perm ''Key''"
    by code_simp+
  from encoders_total [of "''a1 b''" _ "''Key''"] k
  have "\<exists>ct. encrypt_keyed ''a1 b'' ''Key'' = Inr ct" "\<exists>ct. encrypt_with_key ''a1 b'' ''Key'' = Inr ct"
    by blast+
  with k show ?thesis by auto
qed

subsection \<open>The decoder on windows that are not glyphs\<close>

text \<open>
  C8, as the claim states it, fails: only the first glyph of a run is tested.  When the
  first \<open>GLYPH_SIZE\<close> bytes are a glyph and the next two windows are not, the decoder does not
  copy the current character: it writes \<open>@\<close> (the letter of index \<open>-1\<close>) and skips the run.
\<close>

theorem decrypt_untested_run_counterexample:
  "\<not> isGlyph ''abc'' \<and> \<not> isGlyph ''def''
   \<and> decrypt (tri_up @ ''abcdef'') = Inr ''@''
   \<and> decrypt (tri_up @ ''abcdef'') \<noteq> Inr (tri_up @ ''abcdef'')"
  by code_simp

text \<open>
  C8, amended. Whenever the \<open>GLYPH_SIZE\<close> characters read at the current position are not one
  of the three glyphs, the read itself succeeds and the decoder appends the single current
  character and goes on at the next position.  So a ciphertext in which no position starts a
  glyph is decoded to itself.
\<close>

theorem decrypt_literal_passthrough:
  "(\<forall>i acc. i < length ct \<and> \<not> isGlyph (take GLYPH_SIZE (drop i ct)) \<longrightarrow>
       substr ct i GLYPH_SIZE = Inr (take GLYPH_SIZE (drop i ct))
       \<and> decrypt_loop ct i acc = decrypt_loop ct (i + 1) (acc @ [ct ! i]))
   \<and> ((\<forall>i < length ct. \<not> isGlyph (take GLYPH_SIZE (drop i ct))) \<longrightarrow> decrypt ct = Inr ct)"
  by (simp add: decrypt_loop_literal substr_ok decrypt_def decrypt_loop_all_literal)

theorem decrypt_literal_passthrough_witness:
  "(1::nat) < length ''a/b'' \<and> \<not> isGlyph (take GLYPH_SIZE (drop 1 ''a/b''))
   \<and> decrypt_loop ''a/b'' 1 ''a'' = decrypt_loop ''a/b'' (1 + 1) (''a'' @ [''a/b'' ! 1])
   \<and> list_all (\<lambda>i. \<not> isGlyph (take GLYPH_SIZE (drop i ''a/b''))) [0..<length ''a/b'']
   \<and> decrypt ''a/b'' = Inr ''a/b''"
proof -
  have l: "list_all (\<lambda>i. \<not> isGlyph (take GLYPH_SIZE (drop i ''a/b''))) [0..<length ''a/b'']"
    by code_simp
  have a: "\<forall>i < length ''a/b''. \<not> isGlyph (take GLYPH_SIZE (drop i ''a/b''))"
    by (simp add: All_less_Suc isGlyph_def GLYPHS_def GLYPH_SIZE_def numeral_3_eq_3)
  have b: "(1::nat) < length ''a/b'' \<and> \<not> isGlyph (take GLYPH_SIZE (drop 1 ''a/b''))"
    by (simp add: isGlyph_def GLYPHS_def GLYPH_SIZE_def)
  from decrypt_literal_passthrough [of "''a/b''"] a b
  have "decrypt_loop ''a/b'' 1 ''a'' = decrypt_loop ''a/b'' (1 + 1) (''a'' @ [''a/b'' ! 1])"
    and "decrypt ''a/b'' = Inr ''a/b''"
    by blast+
  with l b show ?thesis by blast
qed

subsection \<open>The decoder is partial\<close>

text \<open>
  C10. The decoder is not total.  On a ciphertext that is a single glyph the read at
  \<open>i + GLYPH_SIZE\<close> starts at the end of the string and gives the empty string, the read at
  \<open>i + 2 * GLYPH_SIZE\<close> starts past the end and throws, so \<open>decrypt\<close> fails.  The same holds for
  every ciphertext shorter than two glyphs that starts with a glyph.
\<close>

theorem decrypt_not_total:
  "decrypt (GLYPHS ! 0) = Inl OutOfRange
   \<and> substr (GLYPHS ! 0) (0 + GLYPH_SIZE) GLYPH_SIZE = Inr []
   \<and> substr (GLYPHS ! 0) (0 + GLYPH_SIZE * 2) GLYPH_SIZE = Inl OutOfRange
   \<and> (\<forall>ct. isGlyph (take GLYPH_SIZE ct) \<and> length ct < 2 * GLYPH_SIZE \<longrightarrow> decrypt ct = Inl OutOfRange)"
proof -
  have one: "decrypt (GLYPHS ! 0) = Inl OutOfRange"
    by code_simp
  have reads: "substr (GLYPHS ! 0) (0 + GLYPH_SIZE) GLYPH_SIZE = Inr []"
    "substr (GLYPHS ! 0) (0 + GLYPH_SIZE * 2) GLYPH_SIZE = Inl OutOfRange"
    by (simp_all add: substr_def GLYPHS_def GLYPH_SIZE_def)
  have "decrypt ct = Inl OutOfRange" if g: "isGlyph (take GLYPH_SIZE ct)" and l: "length ct < 2 * GLYPH_SIZE" for ct
  proof -
    from isGlyph_hd [OF g] have ne: "0 < length ct" by auto
    from g have three: "GLYPH_SIZE \<le> length ct"
      by (auto simp: isGlyph_def GLYPHS_def GLYPH_SIZE_def split: if_splits dest: arg_cong [where f = length])
    show ?thesis
      unfolding decrypt_def using ne g l three
      by (subst decrypt_loop.simps) (simp add: substr_def)
  qed
  with one reads show ?thesis by blast
qed

theorem decrypt_not_total_witness:
  "isGlyph (take GLYPH_SIZE (tri_down @ ''ab'')) \<and> length (tri_down @ ''ab'') < 2 * GLYPH_SIZE
   \<and> decrypt (tri_down @ ''ab'') = Inl OutOfRange"
proof -
  have h: "isGlyph (take GLYPH_SIZE (tri_down @ ''ab'')) \<and> length (tri_down @ ''ab'') < 2 * GLYPH_SIZE"
    by (simp add: isGlyph_def GLYPHS_def GLYPH_SIZE_def tri_down_def)
  with decrypt_not_total show ?thesis by blast
qed

end
